theory Spec2Isabelle
  imports Main
begin

section \<open>Log playback: the data model\<close>

text \<open>
  The development follows the playback implementation (class \<open>Playback\<close>, its private
  \<open>Implementation\<close>, and \<open>PlaybackHandle::Implementation\<close>).

  \<^item> \<open>Descriptor::NameToMap\<close> (topic name to a map from message type name to row id) is an
    association list whose keys are the topic names; \<open>find\<close> is \<open>map_of\<close>, and the range-for
    loops of the source walk the list.
  \<^item> \<open>std::unordered_set<std::string>\<close> is a duplicate-free list: \<open>insert\<close> is
    \<open>List.insert\<close>, \<open>erase(key)\<close> is \<open>removeAll\<close>. The iteration order of the C++ container is
    unspecified, so every statement about the selection is made about \<open>set\<close> of the list.
  \<^item> A \<open>std::regex\<close> is taken as the predicate \<open>\<lambda>s. std::regex_match(s, rx)\<close>, the full-string
    match the source calls.
  \<^item> \<open>Log\<close> is used through \<open>Valid()\<close>, \<open>Descriptor()\<close> and \<open>QueryMessages\<close> only; it is a
    record of what these return. The source dereferences the pointer that \<open>Descriptor()\<close>
    returns without a test; except in \<open>DefaultToAllTopics\<close> this happens after \<open>Valid()\<close>
    has been tested. What the pointer is for a log that is not valid is not visible in the
    playback source, and the record simply has a descriptor then too.
  \<^item> The console macros \<open>LERR\<close> and \<open>LWRN\<close> are returned as a list of diagnostics, their
    texts without the trailing newline; the \<open>LDBG\<close> traces are not modelled.
  \<^item> The transport node and its options serve \<open>Advertise\<close> only; a publisher is recorded
    by the topic and the type it was advertised for, and the node is not modelled.
  \<^item> The \<open>int64_t\<close> counters count entries of the descriptor, so they are far from the
    63-bit limit and are plain integers.
\<close>

type_synonym NameToMap = "(string \<times> (string \<times> int) list) list"

record Message =
  Topic :: string
  Type :: string
  TimeReceived :: int
  Data :: string

record Log =
  Valid :: bool
  Descriptor :: NameToMap
  Messages :: "Message list"

datatype console = LERR string | LWRN string

type_synonym regex = "string \<Rightarrow> bool"

record Playback =
  logFile :: Log
  topicNames :: "string list"
  addTopicWasUsed :: bool
  lastHandle :: "nat option"

text \<open>The constructor \<open>Playback::Implementation::Implementation\<close>; opening the file is the
  log's business, so the opened log is the argument.\<close>

definition Playback_Implementation :: "Log \<Rightarrow> Playback" where
  "Playback_Implementation lg =
     \<lparr>logFile = lg, topicNames = [], addTopicWasUsed = False, lastHandle = None\<rparr>"

section \<open>The topic selector\<close>

text \<open>\<open>for (const auto &entry : allTopics) topicNames.insert(entry.first)\<close>\<close>

fun insertAll :: "NameToMap \<Rightarrow> string list \<Rightarrow> string list" where
  "insertAll [] names = names"
| "insertAll (entry # allTopics) names = insertAll allTopics (List.insert (fst entry) names)"

definition DefaultToAllTopics :: "Playback \<Rightarrow> Playback" where
  "DefaultToAllTopics p =
     (if \<not> addTopicWasUsed p
      then p\<lparr>topicNames := insertAll (Descriptor (logFile p)) (topicNames p),
             addTopicWasUsed := True\<rparr>
      else p)"

text \<open>\<open>bool Playback::AddTopic(const std::string &)\<close>\<close>

definition AddTopic :: "string \<Rightarrow> Playback \<Rightarrow> (bool \<times> console list) \<times> Playback" where
  "AddTopic topic p =
     (let p1 = p\<lparr>addTopicWasUsed := True\<rparr> in
      if \<not> Valid (logFile p1) then ((False, [LERR ''Failed to open log file'']), p1)
      else
        (case map_of (Descriptor (logFile p1)) topic of
           None \<Rightarrow> ((False, [LWRN (''Topic ['' @ topic @ ''] is not in the log'')]), p1)
         | Some types \<Rightarrow> ((True, []), p1\<lparr>topicNames := List.insert topic (topicNames p1)\<rparr>)))"

text \<open>The loop of \<open>int64_t Playback::AddTopic(const std::regex &)\<close>: the state is the
  selector set and \<open>numMatches\<close>.\<close>

fun AddTopic_loop :: "regex \<Rightarrow> NameToMap \<Rightarrow> string list \<times> int \<Rightarrow> string list \<times> int" where
  "AddTopic_loop rx [] (names, numMatches) = (names, numMatches)"
| "AddTopic_loop rx (topicEntry # allTopics) (names, numMatches) =
     (if \<not> rx (fst topicEntry) then AddTopic_loop rx allTopics (names, numMatches)
      else AddTopic_loop rx allTopics (List.insert (fst topicEntry) names, numMatches + 1))"

definition AddTopic_regex :: "regex \<Rightarrow> Playback \<Rightarrow> (int \<times> console list) \<times> Playback" where
  "AddTopic_regex rx p =
     (let p1 = p\<lparr>addTopicWasUsed := True\<rparr> in
      if \<not> Valid (logFile p1) then ((- 1, [LERR ''Failed to open log file'']), p1)
      else
        (let (names, numMatches) = AddTopic_loop rx (Descriptor (logFile p1)) (topicNames p1, 0)
         in ((numMatches, []), p1\<lparr>topicNames := names\<rparr>)))"

text \<open>\<open>bool Playback::RemoveTopic(const std::string &)\<close>: \<open>erase\<close> returns the number of
  elements removed.\<close>

definition RemoveTopic :: "string \<Rightarrow> Playback \<Rightarrow> bool \<times> Playback" where
  "RemoveTopic topic p =
     (let p1 = DefaultToAllTopics p in
      (topic \<in> set (topicNames p1), p1\<lparr>topicNames := removeAll topic (topicNames p1)\<rparr>))"

text \<open>The loop of \<open>int64_t Playback::RemoveTopic(const std::regex &)\<close>: the iterator walks
  the set, erasing the matching names and counting them.\<close>

fun RemoveTopic_loop :: "regex \<Rightarrow> string list \<Rightarrow> int \<Rightarrow> string list \<times> int" where
  "RemoveTopic_loop rx [] count = ([], count)"
| "RemoveTopic_loop rx (name # rest) count =
     (if rx name then RemoveTopic_loop rx rest (count + 1)
      else (let (kept, c) = RemoveTopic_loop rx rest count in (name # kept, c)))"

definition RemoveTopic_regex :: "regex \<Rightarrow> Playback \<Rightarrow> int \<times> Playback" where
  "RemoveTopic_regex rx p =
     (let p1 = DefaultToAllTopics p;
          (kept, count) = RemoveTopic_loop rx (topicNames p1) 0
      in (count, p1\<lparr>topicNames := kept\<rparr>))"

text \<open>The snapshot that \<open>Playback::Start\<close> computes into its local \<open>topics\<close>.\<close>

definition Start_topics :: "Playback \<Rightarrow> string list" where
  "Start_topics p =
     (if \<not> addTopicWasUsed p then insertAll (Descriptor (logFile p)) []
      else topicNames p)"

definition topicsOf :: "Log \<Rightarrow> string set" where
  "topicsOf lg = fst ` set (Descriptor lg)"

section \<open>The playback handle\<close>

text \<open>
  A \<open>Node::Publisher\<close> is what \<open>Node::Advertise(topic, type)\<close> returned, or the
  default-constructed publisher that \<open>operator[]\<close> creates for a missing key. The two-level
  \<open>publishers\<close> table is a map of maps.
\<close>

datatype Publisher = Advertise string string | DefaultPublisher

type_synonym PublisherTable = "string \<rightharpoonup> (string \<rightharpoonup> Publisher)"

text \<open>Undefined behaviour that the source can reach is a value of its own.\<close>

datatype fault = EndIteratorDereference

text \<open>
  The worker thread (the lambda of \<open>StartPlayback\<close>) is a small-step machine: \<open>pc\<close> is its
  control point between two accesses to the shared atomics \<open>stop\<close> and \<open>finished\<close>. The
  atomics are sequentially consistent, so an execution of the handle is an interleaving of
  the atomic steps of the worker and of the threads that call \<open>Stop\<close> and
  \<open>WaitUntilFinished\<close>.
\<close>

datatype pc =
    AtLoopTop
  | AtFinishedWaiting Message
  | InWaitFor Message
  | AtPublish Message
  | AtSetFinished
  | AtSetStop
  | AtNotify
  | Returned

text \<open>Control point of a thread that calls \<open>WaitUntilFinished\<close>.\<close>

datatype waitCall = NotCalled | WaitingForFinished | HasReturned

text \<open>
  \<open>batch\<close> holds the messages the range-for has not reached yet; \<open>published\<close> is the bus:
  the messages handed to \<open>PublishRaw\<close>, oldest first. \<open>joined\<close> says that
  \<open>playbackThread\<close> is no longer joinable.
\<close>

record Handle =
  handleLogFile :: Log
  publishers :: PublisherTable
  stop :: bool
  finished :: bool
  pc :: pc
  batch :: "Message list"
  publishedFirstMessage :: bool
  firstMsgTime :: int
  published :: "Message list"
  joined :: bool
  waitCall :: waitCall

definition CreatePublisher :: "string \<Rightarrow> string \<Rightarrow> PublisherTable \<Rightarrow> PublisherTable" where
  "CreatePublisher topic type pubs =
     (let firstMap = (case pubs topic of None \<Rightarrow> Map.empty | Some m \<Rightarrow> m) in
      case firstMap type of
        Some existing \<Rightarrow> pubs(topic \<mapsto> firstMap)
      | None \<Rightarrow> pubs(topic \<mapsto> firstMap(type \<mapsto> Advertise topic type)))"

text \<open>\<open>for (const auto &typeEntry : it->second) CreatePublisher(_topic, type)\<close>\<close>

fun CreatePublishers :: "string \<Rightarrow> (string \<times> int) list \<Rightarrow> PublisherTable \<Rightarrow> PublisherTable" where
  "CreatePublishers topic [] pubs = pubs"
| "CreatePublishers topic (typeEntry # types) pubs =
     CreatePublishers topic types (CreatePublisher topic (fst typeEntry) pubs)"

text \<open>\<open>PlaybackHandle::Implementation::AddTopic\<close>: the result of \<open>find\<close> is dereferenced
  without a test against \<open>end()\<close>.\<close>

definition PlaybackHandle_AddTopic :: "Log \<Rightarrow> string \<Rightarrow> PublisherTable \<Rightarrow> fault + PublisherTable" where
  "PlaybackHandle_AddTopic lg topic pubs =
     (case map_of (Descriptor lg) topic of
        None \<Rightarrow> Inl EndIteratorDereference
      | Some types \<Rightarrow> Inr (CreatePublishers topic types pubs))"

text \<open>\<open>for (const std::string &topic : _topics) this->AddTopic(topic)\<close>\<close>

fun AddTopics :: "Log \<Rightarrow> string list \<Rightarrow> PublisherTable \<Rightarrow> fault + PublisherTable" where
  "AddTopics lg [] pubs = Inr pubs"
| "AddTopics lg (topic # topics) pubs =
     (case PlaybackHandle_AddTopic lg topic pubs of
        Inl f \<Rightarrow> Inl f
      | Inr pubs1 \<Rightarrow> AddTopics lg topics pubs1)"

text \<open>Modelled from the spec: \<open>Log::QueryMessages(TopicList::Create(_topics))\<close> is not part
  of the playback source; by the specification it yields, in the order of the store, the
  recorded messages of the selected topics.\<close>

definition QueryMessages :: "Log \<Rightarrow> string list \<Rightarrow> Message list" where
  "QueryMessages lg topics = filter (\<lambda>m. Topic m \<in> set topics) (Messages lg)"

text \<open>\<open>StartPlayback\<close> clears \<open>stop\<close> and starts the thread on the batch. The local
  \<open>firstMsgTime\<close> is uninitialised in the source and written before it is first read; it
  starts at 0 here.\<close>

definition StartPlayback :: "Message list \<Rightarrow> Handle \<Rightarrow> Handle" where
  "StartPlayback b h =
     h\<lparr>stop := False, pc := AtLoopTop, batch := b,
       publishedFirstMessage := False, firstMsgTime := 0\<rparr>"

text \<open>The constructor of \<open>PlaybackHandle::Implementation\<close>. Sleeping for
  \<open>_waitAfterAdvertising\<close> changes no state.\<close>

definition PlaybackHandle_Implementation ::
  "Log \<Rightarrow> string list \<Rightarrow> fault + (console list \<times> Handle)" where
  "PlaybackHandle_Implementation lg topics =
     (case AddTopics lg topics Map.empty of
        Inl f \<Rightarrow> Inl f
      | Inr pubs \<Rightarrow>
          (let b = QueryMessages lg topics;
               h0 = \<lparr>handleLogFile = lg, publishers = pubs, stop = True, finished = False,
                     pc = Returned, batch = [], publishedFirstMessage = False,
                     firstMsgTime = 0, published = [], joined = False,
                     waitCall = NotCalled\<rparr>
           in Inr ((if b = [] then [LWRN ''There are no messages to play''] else []),
                   StartPlayback b h0)))"

text \<open>The predicate of the timed wait: \<open>target <= now || this->stop\<close>, where \<open>now\<close> is the
  steady clock read relative to \<open>startTime\<close>.\<close>

definition FinishedWaiting :: "Handle \<Rightarrow> int \<Rightarrow> int \<Rightarrow> bool" where
  "FinishedWaiting h target now = (target \<le> now \<or> stop h)"

text \<open>\<open>this->publishers[msg.Topic()][msg.Type()].PublishRaw(msg.Data(), msg.Type())\<close>:
  \<open>operator[]\<close> inserts a default value for a missing key.\<close>

definition PublishRaw :: "Message \<Rightarrow> Handle \<Rightarrow> Handle" where
  "PublishRaw msg h =
     (let firstMap = (case publishers h (Topic msg) of None \<Rightarrow> Map.empty | Some m \<Rightarrow> m);
          pub = (case firstMap (Type msg) of None \<Rightarrow> DefaultPublisher | Some p \<Rightarrow> p)
      in h\<lparr>publishers := (publishers h)(Topic msg \<mapsto> firstMap(Type msg \<mapsto> pub)),
           published := published h @ [msg]\<rparr>)"

text \<open>
  One atomic step of the worker thread. \<open>now\<close> is what the steady clock reads in this step
  (relative to \<open>startTime\<close>) and \<open>timedOut\<close> says whether the duration given to \<open>wait_for\<close>
  has elapsed; both come from the environment. A wake-up of \<open>wait_for\<close> with the predicate
  false and the time not elapsed is a spurious one, and the thread keeps waiting. The
  source ignores the result of \<open>wait_for\<close>: whatever ends the wait, the next statement is
  the publication.
\<close>

definition worker :: "int \<Rightarrow> bool \<Rightarrow> Handle \<Rightarrow> Handle option" where
  "worker now timedOut h =
     (case pc h of
        AtLoopTop \<Rightarrow>
          (case batch h of
             [] \<Rightarrow> Some (h\<lparr>pc := AtSetFinished\<rparr>)
           | msg # rest \<Rightarrow>
               if stop h then Some (h\<lparr>pc := AtSetFinished\<rparr>)
               else if publishedFirstMessage h
                 then Some (h\<lparr>pc := AtFinishedWaiting msg, batch := rest\<rparr>)
                 else Some (h\<lparr>publishedFirstMessage := True, firstMsgTime := TimeReceived msg,
                             pc := AtPublish msg, batch := rest\<rparr>))
      | AtFinishedWaiting msg \<Rightarrow>
          if FinishedWaiting h (TimeReceived msg - firstMsgTime h) now
          then Some (h\<lparr>pc := AtPublish msg\<rparr>)
          else Some (h\<lparr>pc := InWaitFor msg\<rparr>)
      | InWaitFor msg \<Rightarrow>
          if FinishedWaiting h (TimeReceived msg - firstMsgTime h) now \<or> timedOut
          then Some (h\<lparr>pc := AtPublish msg\<rparr>)
          else Some h
      | AtPublish msg \<Rightarrow> Some ((PublishRaw msg h)\<lparr>pc := AtLoopTop\<rparr>)
      | AtSetFinished \<Rightarrow> Some (h\<lparr>finished := True, pc := AtSetStop\<rparr>)
      | AtSetStop \<Rightarrow> Some (h\<lparr>stop := True, pc := AtNotify\<rparr>)
      | AtNotify \<Rightarrow> Some (h\<lparr>pc := Returned\<rparr>)
      | Returned \<Rightarrow> None)"

text \<open>
  The steps of the calling threads. \<open>Stop()\<close> is the store to \<open>stop\<close> (with the
  notification) followed by the join, which can only return once the thread function has
  returned. \<open>WaitUntilFinished()\<close> tests its guard on entry and then waits for the
  predicate \<open>finished.load()\<close>.
\<close>

datatype event =
    Worker int bool
  | Stop_store
  | Stop_join
  | WaitUntilFinished_enter
  | WaitUntilFinished_wake

definition step :: "event \<Rightarrow> Handle \<Rightarrow> Handle option" where
  "step e h =
     (case e of
        Worker now timedOut \<Rightarrow> worker now timedOut h
      | Stop_store \<Rightarrow>
          if \<not> Valid (handleLogFile h) then Some h else Some (h\<lparr>stop := True\<rparr>)
      | Stop_join \<Rightarrow>
          if \<not> Valid (handleLogFile h) then Some h
          else if joined h then Some h
          else if pc h = Returned then Some (h\<lparr>joined := True\<rparr>)
          else None
      | WaitUntilFinished_enter \<Rightarrow>
          if waitCall h \<noteq> NotCalled then None
          else if Valid (handleLogFile h) \<and> \<not> stop h
            then Some (h\<lparr>waitCall := WaitingForFinished\<rparr>)
            else Some (h\<lparr>waitCall := HasReturned\<rparr>)
      | WaitUntilFinished_wake \<Rightarrow>
          if waitCall h \<noteq> WaitingForFinished then None
          else if finished h then Some (h\<lparr>waitCall := HasReturned\<rparr>)
          else Some h)"

text \<open>An execution: the events in the order in which they take effect. \<open>None\<close> means that
  an event was scheduled while its thread could not move.\<close>

fun run :: "event list \<Rightarrow> Handle \<Rightarrow> Handle option" where
  "run [] h = Some h"
| "run (e # es) h = (case step e h of None \<Rightarrow> None | Some h1 \<Rightarrow> run es h1)"

text \<open>\<open>PlaybackHandle::Finished\<close>\<close>

definition Finished :: "Handle \<Rightarrow> bool" where
  "Finished h = finished h"

section \<open>The factory and its handles\<close>

text \<open>
  \<open>Playback::Start\<close> returns a shared pointer to a new \<open>PlaybackHandle\<close> and keeps a weak
  pointer to it in \<open>lastHandle\<close>. The handles that some shared pointer still owns are the
  cells of the store \<open>handles\<close>; a pointer is an address, \<open>fresh\<close> is the next address to hand
  out, and a weak pointer locks to the cell if it is still there. When the last shared
  pointer to a handle is dropped, the weak pointers to it expire at once, and only then
  does the destructor run \<open>Stop()\<close> and join the worker: until the join returns the object
  is in the store \<open>destroying\<close>, where its worker can still take steps but where no weak
  pointer reaches it.
\<close>

record System =
  playback :: Playback
  handles :: "nat \<rightharpoonup> Handle"
  destroying :: "nat \<rightharpoonup> Handle"
  fresh :: nat

definition lock :: "System \<Rightarrow> nat option \<Rightarrow> Handle option" where
  "lock s r = (case r of None \<Rightarrow> None | Some a \<Rightarrow> handles s a)"

text \<open>The warning of \<open>Playback::Start\<close>.\<close>

definition singleThreadedWarning :: console where
  "singleThreadedWarning =
     LWRN ''You have linked to a single-threaded sqlite3. We can only spawn one PlaybackHandle at a time''"

text \<open>\<open>Playback::Start\<close>; the first argument is the constant \<open>kSqlite3Threadsafe\<close>, which
  the source reads from the sqlite3 library.\<close>

definition Start :: "bool \<Rightarrow> System \<Rightarrow> fault + ((nat option \<times> console list) \<times> System)" where
  "Start kSqlite3Threadsafe s =
     (let p = playback s in
      if \<not> Valid (logFile p)
      then Inr ((None, [LERR ''Could not start: Failed to open log file'']), s)
      else if \<not> kSqlite3Threadsafe \<and>
              (case lock s (lastHandle p) of None \<Rightarrow> False | Some h \<Rightarrow> \<not> Finished h)
      then Inr ((None, [singleThreadedWarning]), s)
      else
        (case PlaybackHandle_Implementation (logFile p) (Start_topics p) of
           Inl f \<Rightarrow> Inl f
         | Inr (out, h) \<Rightarrow>
             (let newHandle = fresh s in
              Inr ((Some newHandle, out),
                   s\<lparr>playback := (if \<not> kSqlite3Threadsafe then p\<lparr>lastHandle := Some newHandle\<rparr> else p),
                     handles := (handles s)(newHandle \<mapsto> h),
                     fresh := Suc newHandle\<rparr>))))"

text \<open>The four mutators of the selector as values, to speak about sequences of calls.\<close>

datatype mutator =
    M_AddTopic string
  | M_AddTopic_regex regex
  | M_RemoveTopic string
  | M_RemoveTopic_regex regex

fun mutate :: "mutator \<Rightarrow> Playback \<Rightarrow> Playback" where
  "mutate (M_AddTopic t) p = snd (AddTopic t p)"
| "mutate (M_AddTopic_regex rx) p = snd (AddTopic_regex rx p)"
| "mutate (M_RemoveTopic t) p = snd (RemoveTopic t p)"
| "mutate (M_RemoveTopic_regex rx) p = snd (RemoveTopic_regex rx p)"

fun mutateAll :: "mutator list \<Rightarrow> Playback \<Rightarrow> Playback" where
  "mutateAll [] p = p"
| "mutateAll (c # cs) p = mutateAll cs (mutate c p)"

text \<open>\<open>removes c t\<close>: the call \<open>c\<close> is a \<open>RemoveTopic\<close> that names or matches the topic \<open>t\<close>.\<close>

fun removes :: "mutator \<Rightarrow> string \<Rightarrow> bool" where
  "removes (M_AddTopic u) t = False"
| "removes (M_AddTopic_regex rx) t = False"
| "removes (M_RemoveTopic u) t = (t = u)"
| "removes (M_RemoveTopic_regex rx) t = rx t"

fun isAddTopic :: "mutator \<Rightarrow> bool" where
  "isAddTopic (M_AddTopic t) = True"
| "isAddTopic (M_AddTopic_regex rx) = True"
| "isAddTopic (M_RemoveTopic t) = False"
| "isAddTopic (M_RemoveTopic_regex rx) = False"

text \<open>The steps that can still happen on a handle that is being destroyed: those of its
  worker and those of the \<open>Stop()\<close> call of the destructor.\<close>

fun duringDestruction :: "event \<Rightarrow> bool" where
  "duringDestruction (Worker now timedOut) = True"
| "duringDestruction Stop_store = True"
| "duringDestruction Stop_join = True"
| "duringDestruction WaitUntilFinished_enter = False"
| "duringDestruction WaitUntilFinished_wake = False"

text \<open>
  What a program can do with a factory and its handles: call a mutator of the selector,
  call \<open>Start\<close>, let a thread of a handle take a step, or drop the last shared pointer to
  a handle (\<open>Release\<close>). The drop makes the weak pointers expire and starts the destructor
  of \<open>PlaybackHandle\<close>, which calls \<open>Stop()\<close>; the object is freed (\<open>Reclaim\<close>) when the join
  of that call can return.
\<close>

datatype action =
    Select mutator
  | Call_Start
  | On_handle nat event
  | Release nat
  | Reclaim nat

datatype stuck = Faulted fault | Disabled

definition act :: "bool \<Rightarrow> action \<Rightarrow> System \<Rightarrow> stuck + System" where
  "act kSqlite3Threadsafe a s =
     (case a of
        Select c \<Rightarrow> Inr (s\<lparr>playback := mutate c (playback s)\<rparr>)
      | Call_Start \<Rightarrow>
          (case Start kSqlite3Threadsafe s of
             Inl f \<Rightarrow> Inl (Faulted f)
           | Inr (res, s1) \<Rightarrow> Inr s1)
      | On_handle x e \<Rightarrow>
          (case handles s x of
             Some h \<Rightarrow>
               (case step e h of
                  None \<Rightarrow> Inl Disabled
                | Some h1 \<Rightarrow> Inr (s\<lparr>handles := (handles s)(x \<mapsto> h1)\<rparr>))
           | None \<Rightarrow>
               (case destroying s x of
                  None \<Rightarrow> Inl Disabled
                | Some h \<Rightarrow>
                    if \<not> duringDestruction e then Inl Disabled
                    else
                      (case step e h of
                         None \<Rightarrow> Inl Disabled
                       | Some h1 \<Rightarrow> Inr (s\<lparr>destroying := (destroying s)(x \<mapsto> h1)\<rparr>))))
      | Release x \<Rightarrow>
          (case handles s x of
             None \<Rightarrow> Inl Disabled
           | Some h \<Rightarrow>
               Inr (s\<lparr>handles := (handles s)(x := None),
                      destroying := (destroying s)(x \<mapsto> h)\<rparr>))
      | Reclaim x \<Rightarrow>
          (case destroying s x of
             None \<Rightarrow> Inl Disabled
           | Some h \<Rightarrow>
               (case run [Stop_store, Stop_join] h of
                  None \<Rightarrow> Inl Disabled
                | Some h1 \<Rightarrow> Inr (s\<lparr>destroying := (destroying s)(x := None)\<rparr>))))"

fun exec :: "bool \<Rightarrow> action list \<Rightarrow> System \<Rightarrow> stuck + System" where
  "exec ts [] s = Inr s"
| "exec ts (a # as) s = (case act ts a s of Inl x \<Rightarrow> Inl x | Inr s1 \<Rightarrow> exec ts as s1)"

text \<open>A program starts by constructing the factory on an opened log.\<close>

definition boot :: "Log \<Rightarrow> System" where
  "boot lg =
     \<lparr>playback = Playback_Implementation lg, handles = Map.empty, destroying = Map.empty,
      fresh = 0\<rparr>"

text \<open>The events of handle \<open>x\<close> in a list of actions.\<close>

fun events_of :: "nat \<Rightarrow> action list \<Rightarrow> event list" where
  "events_of x [] = []"
| "events_of x (Select c # as) = events_of x as"
| "events_of x (Call_Start # as) = events_of x as"
| "events_of x (On_handle y e # as) = (if y = x then e # events_of x as else events_of x as)"
| "events_of x (Release y # as) = events_of x as"
| "events_of x (Reclaim y # as) = events_of x as"

text \<open>Replay order on a list of messages.\<close>

definition replayOrdered :: "Message list \<Rightarrow> bool" where
  "replayOrdered ms = sorted_wrt (\<lambda>m1 m2. TimeReceived m1 \<le> TimeReceived m2) ms"

text \<open>The message the worker holds between the top of the loop and its publication.\<close>

fun inHand :: "pc \<Rightarrow> Message list" where
  "inHand (AtFinishedWaiting msg) = [msg]"
| "inHand (InWaitFor msg) = [msg]"
| "inHand (AtPublish msg) = [msg]"
| "inHand AtLoopTop = []"
| "inHand AtSetFinished = []"
| "inHand AtSetStop = []"
| "inHand AtNotify = []"
| "inHand Returned = []"

section \<open>Example data\<close>

text \<open>A log with two topics and three messages on \<open>/foo\<close>, received at 0 ms, 100 ms and
  250 ms (the times are in nanoseconds), and a log that failed to open.\<close>

definition exampleLog :: Log where
  "exampleLog =
     \<lparr>Valid = True,
      Descriptor =
        [(''/foo'', [(''msgs.StringMsg'', 1)]),
         (''/bar'', [(''msgs.Int32'', 2), (''msgs.Double'', 3)])],
      Messages =
        [\<lparr>Topic = ''/foo'', Type = ''msgs.StringMsg'', TimeReceived = 0, Data = ''a''\<rparr>,
         \<lparr>Topic = ''/foo'', Type = ''msgs.StringMsg'', TimeReceived = 100000000, Data = ''b''\<rparr>,
         \<lparr>Topic = ''/foo'', Type = ''msgs.StringMsg'', TimeReceived = 250000000, Data = ''c''\<rparr>]\<rparr>"

definition unopenedLog :: Log where
  "unopenedLog = \<lparr>Valid = False, Descriptor = [], Messages = []\<rparr>"

text \<open>
  The handle that \<open>Start\<close> constructs on \<open>exampleLog\<close> for the snapshot \<open>{/foo}\<close>, and a
  schedule in which \<open>Stop()\<close> is called 120 ms after the start of the replay, while the
  worker is in the timed wait before the third message (due at 250 ms). Before the call
  the worker publishes the first message at once, waits for the second until 100 ms,
  publishes it and enters the wait for the third. The store to \<open>stop\<close> wakes it up. The
  schedule also has a thread that entered \<open>WaitUntilFinished\<close> at the beginning.
\<close>

definition exampleHandle :: Handle where
  "exampleHandle =
     \<lparr>handleLogFile = exampleLog,
      publishers = [''/foo'' \<mapsto> [''msgs.StringMsg'' \<mapsto> Advertise ''/foo'' ''msgs.StringMsg'']],
      stop = False, finished = False, pc = AtLoopTop, batch = Messages exampleLog,
      publishedFirstMessage = False, firstMsgTime = 0, published = [], joined = False,
      waitCall = NotCalled\<rparr>"

definition S3_before_stop :: "event list" where
  "S3_before_stop =
     [Worker 0 False, Worker 0 False,
      Worker 0 False, Worker 0 False, Worker 100000000 True, Worker 100000000 False,
      Worker 100000000 False, Worker 100000000 False]"

definition S3_after_stop :: "event list" where
  "S3_after_stop =
     [Worker 120000000 False, Worker 120000000 False,
      Worker 120000000 False, Worker 120000000 False, Worker 120000000 False,
      Worker 120000000 False,
      Stop_join, WaitUntilFinished_wake]"

text \<open>
  Programs on \<open>exampleLog\<close> without a threadsafe sqlite3. The first starts a replay and
  drops the handle at once; the destructor has not stopped the worker yet. The second
  goes on: the destructor stores \<open>stop\<close>, the worker sees it at the top of its loop and
  leaves, the join returns and the object is freed. The third starts a replay and lets it
  come to its end (a \<open>Stop()\<close> before the first message) while the caller keeps the handle.
\<close>

definition S6_start_drop :: "action list" where
  "S6_start_drop = [Call_Start, Release 0]"

definition S6_start_drop_destroyed :: "action list" where
  "S6_start_drop_destroyed =
     [Call_Start, Release 0,
      On_handle 0 Stop_store,
      On_handle 0 (Worker 0 False), On_handle 0 (Worker 0 False),
      On_handle 0 (Worker 0 False), On_handle 0 (Worker 0 False),
      Reclaim 0]"

definition S6_start_finished :: "action list" where
  "S6_start_finished =
     [Call_Start,
      On_handle 0 Stop_store,
      On_handle 0 (Worker 0 False), On_handle 0 (Worker 0 False),
      On_handle 0 (Worker 0 False), On_handle 0 (Worker 0 False),
      On_handle 0 Stop_join]"

text \<open>A program that changes the selector of the factory while handle 0 is replaying.\<close>

definition mutateWhileReplaying :: "action list" where
  "mutateWhileReplaying =
     [Select (M_RemoveTopic ''/foo''), On_handle 0 (Worker 0 False),
      Select (M_AddTopic ''/bar''), On_handle 0 (Worker 0 False)]"

section \<open>An invariant of the factory\<close>

text \<open>
  What holds of every state that a program reaches from \<open>boot lg\<close>: the log of the factory
  is \<open>lg\<close>, the selector set holds topic names of its descriptor only, no handle lives at
  an address that has not been handed out, and without a threadsafe sqlite3 \<open>lastHandle\<close>
  points to the handle that was issued last.
\<close>

definition consistent :: "bool \<Rightarrow> Log \<Rightarrow> System \<Rightarrow> bool" where
  "consistent kSqlite3Threadsafe lg s \<longleftrightarrow>
     logFile (playback s) = lg \<and>
     set (topicNames (playback s)) \<subseteq> topicsOf lg \<and>
     (\<forall>x. fresh s \<le> x \<longrightarrow> handles s x = None) \<and>
     (kSqlite3Threadsafe \<or>
        lastHandle (playback s) = (if fresh s = 0 then None else Some (fresh s - 1)))"

section \<open>Selector lemmas\<close>

lemma set_insertAll: "set (insertAll es names) = set names \<union> fst ` set es"
  by (induction es arbitrary: names) auto

lemma distinct_insertAll: "distinct names \<Longrightarrow> distinct (insertAll es names)"
  by (induction es arbitrary: names) auto

lemma AddTopic_loop_names:
  "set (fst (AddTopic_loop rx es (names, n))) = set names \<union> {t \<in> fst ` set es. rx t}"
  by (induction es arbitrary: names n) auto

lemma AddTopic_loop_count:
  "snd (AddTopic_loop rx es (names, n)) = n + int (length (filter rx (map fst es)))"
  by (induction es arbitrary: names n) auto

lemma RemoveTopic_loop_names:
  "fst (RemoveTopic_loop rx names n) = filter (\<lambda>t. \<not> rx t) names"
  by (induction names arbitrary: n) (auto simp: case_prod_beta)

lemma RemoveTopic_loop_count:
  "snd (RemoveTopic_loop rx names n) = n + int (length (filter rx names))"
  by (induction names arbitrary: n) (auto simp: case_prod_beta)

text \<open>The keys of a descriptor are distinct, and then the number of matching entries is
  the number of matching topic names.\<close>

lemma count_distinct:
  assumes "distinct (map fst es)"
  shows "length (filter rx (map fst es)) = card {t \<in> fst ` set es. rx t}"
proof -
  have "set (filter rx (map fst es)) = {t \<in> fst ` set es. rx t}" by auto
  moreover have "distinct (filter rx (map fst es))" using assms by simp
  ultimately show ?thesis by (metis distinct_card)
qed

lemma map_of_None_iff: "map_of es k = None \<longleftrightarrow> k \<notin> fst ` set es"
  by (simp add: map_of_eq_None_iff)

lemma map_of_Some_in: "map_of es k = Some v \<Longrightarrow> k \<in> fst ` set es"
  by (metis map_of_None_iff option.distinct(1))

lemma logFile_DefaultToAllTopics [simp]: "logFile (DefaultToAllTopics p) = logFile p"
  by (simp add: DefaultToAllTopics_def)

lemma topicNames_DefaultToAllTopics:
  "set (topicNames p) \<subseteq> topicsOf (logFile p) \<Longrightarrow>
   set (topicNames (DefaultToAllTopics p)) \<subseteq> topicsOf (logFile (DefaultToAllTopics p))"
  by (auto simp: DefaultToAllTopics_def set_insertAll topicsOf_def)

lemma logFile_mutate [simp]: "logFile (mutate c p) = logFile p"
  by (cases c)
     (auto simp: AddTopic_def AddTopic_regex_def RemoveTopic_def RemoveTopic_regex_def
                 DefaultToAllTopics_def Let_def split: option.splits prod.splits)

lemma addTopicWasUsed_mutate [simp]: "addTopicWasUsed (mutate c p)"
  by (cases c)
     (auto simp: AddTopic_def AddTopic_regex_def RemoveTopic_def RemoveTopic_regex_def
                 DefaultToAllTopics_def Let_def split: option.splits prod.splits)

text \<open>Every mutator keeps the selector inside the topics of the descriptor.\<close>

lemma topicNames_mutate:
  assumes "set (topicNames p) \<subseteq> topicsOf (logFile p)"
  shows "set (topicNames (mutate c p)) \<subseteq> topicsOf (logFile p)"
proof (cases c)
  case (M_AddTopic t)
  then show ?thesis using assms
    by (auto simp: AddTopic_def Let_def topicsOf_def split: option.splits dest: map_of_Some_in)
next
  case (M_AddTopic_regex rx)
  obtain names n where l: "AddTopic_loop rx (Descriptor (logFile p)) (topicNames p, 0) = (names, n)"
    by (cases "AddTopic_loop rx (Descriptor (logFile p)) (topicNames p, 0)")
  have "set names = set (topicNames p) \<union> {t \<in> fst ` set (Descriptor (logFile p)). rx t}"
    using AddTopic_loop_names [of rx "Descriptor (logFile p)" "topicNames p" 0] l by simp
  then show ?thesis using assms l M_AddTopic_regex
    by (auto simp: AddTopic_regex_def Let_def topicsOf_def)
next
  case (M_RemoveTopic t)
  then show ?thesis using topicNames_DefaultToAllTopics [OF assms]
    by (auto simp: RemoveTopic_def Let_def)
next
  case (M_RemoveTopic_regex rx)
  obtain kept n where l: "RemoveTopic_loop rx (topicNames (DefaultToAllTopics p)) 0 = (kept, n)"
    by (cases "RemoveTopic_loop rx (topicNames (DefaultToAllTopics p)) 0")
  have "kept = filter (\<lambda>t. \<not> rx t) (topicNames (DefaultToAllTopics p))"
    using RemoveTopic_loop_names [of rx "topicNames (DefaultToAllTopics p)" 0] l by simp
  then show ?thesis using topicNames_DefaultToAllTopics [OF assms] l M_RemoveTopic_regex
    by (auto simp: RemoveTopic_regex_def Let_def)
qed

lemma logFile_mutateAll [simp]: "logFile (mutateAll cs p) = logFile p"
  by (induction cs arbitrary: p) auto

lemma addTopicWasUsed_mutateAll:
  "addTopicWasUsed (mutateAll cs p) \<longleftrightarrow> addTopicWasUsed p \<or> cs \<noteq> []"
proof (induction cs arbitrary: p)
  case Nil
  show ?case by simp
next
  case (Cons c cs)
  show ?case by (simp add: Cons.IH)
qed

lemma set_Start_topics:
  "set (Start_topics p) =
     (if addTopicWasUsed p then set (topicNames p) else topicsOf (logFile p))"
  by (simp add: Start_topics_def set_insertAll topicsOf_def)

text \<open>A \<open>RemoveTopic\<close> call takes from the selection of \<open>Start\<close> exactly the topics it names
  or matches.\<close>

lemma mutate_removal:
  assumes "set (topicNames p) \<subseteq> topicsOf (logFile p)" and "\<not> isAddTopic c"
  shows "set (Start_topics (mutate c p)) = {t \<in> set (Start_topics p). \<not> removes c t}"
proof (cases c)
  case (M_RemoveTopic u)
  then show ?thesis using assms(1)
    by (auto simp: set_Start_topics RemoveTopic_def DefaultToAllTopics_def Let_def
                   set_insertAll topicsOf_def)
next
  case (M_RemoveTopic_regex rx)
  obtain kept n where l: "RemoveTopic_loop rx (topicNames (DefaultToAllTopics p)) 0 = (kept, n)"
    by (cases "RemoveTopic_loop rx (topicNames (DefaultToAllTopics p)) 0")
  have k: "kept = filter (\<lambda>t. \<not> rx t) (topicNames (DefaultToAllTopics p))"
    using RemoveTopic_loop_names [of rx "topicNames (DefaultToAllTopics p)" 0] l by simp
  have f: "addTopicWasUsed (DefaultToAllTopics p)" by (simp add: DefaultToAllTopics_def)
  have d: "set (topicNames (DefaultToAllTopics p)) = set (Start_topics p)"
    using assms(1)
    by (auto simp: set_Start_topics DefaultToAllTopics_def set_insertAll topicsOf_def)
  show ?thesis using M_RemoveTopic_regex l k f d
    by (auto simp: set_Start_topics RemoveTopic_regex_def Let_def)
qed (use assms(2) in simp_all)

lemma mutateAll_removals:
  "set (topicNames p) \<subseteq> topicsOf (logFile p) \<Longrightarrow> list_all (\<lambda>c. \<not> isAddTopic c) cs \<Longrightarrow>
   set (Start_topics (mutateAll cs p)) = {t \<in> set (Start_topics p). list_all (\<lambda>c. \<not> removes c t) cs}"
proof (induction cs arbitrary: p)
  case Nil
  show ?case by simp
next
  case (Cons c cs)
  have i: "set (topicNames (mutate c p)) \<subseteq> topicsOf (logFile (mutate c p))"
    using topicNames_mutate [OF Cons.prems(1)] by simp
  have "set (Start_topics (mutateAll cs (mutate c p))) =
        {t \<in> set (Start_topics (mutate c p)). list_all (\<lambda>c. \<not> removes c t) cs}"
    using Cons.IH [OF i] Cons.prems(2) by simp
  then show ?case using mutate_removal [OF Cons.prems(1), of c] Cons.prems(2) by auto
qed

section \<open>Claims about the selector\<close>

text \<open>
  Claim C9. \<open>Playback::AddTopic\<close> with a literal name always sets \<open>addTopicWasUsed\<close>. On an
  invalid log it reports the error and returns false; on a valid log, a name that is not
  in the descriptor gives a warning and false, and a name that is in the descriptor is
  inserted into the selector set and the call returns true.
\<close>

theorem AddTopic_name_cases:
  "addTopicWasUsed (snd (AddTopic t p)) \<and>
   (if \<not> Valid (logFile p)
    then AddTopic t p = ((False, [LERR ''Failed to open log file'']), p\<lparr>addTopicWasUsed := True\<rparr>)
    else if t \<notin> topicsOf (logFile p)
      then AddTopic t p =
             ((False, [LWRN (''Topic ['' @ t @ ''] is not in the log'')]), p\<lparr>addTopicWasUsed := True\<rparr>)
      else fst (fst (AddTopic t p)) = True \<and>
           set (topicNames (snd (AddTopic t p))) = insert t (set (topicNames p)))"
  by (auto simp: AddTopic_def Let_def topicsOf_def map_of_None_iff split: option.splits
           dest: map_of_Some_in)

theorem AddTopic_name_cases_witness:
  "fst (AddTopic ''/foo'' (Playback_Implementation exampleLog)) = (True, []) \<and>
   set (topicNames (snd (AddTopic ''/foo'' (Playback_Implementation exampleLog)))) = {''/foo''} \<and>
   fst (AddTopic ''/baz'' (Playback_Implementation exampleLog)) =
     (False, [LWRN ''Topic [/baz] is not in the log'']) \<and>
   addTopicWasUsed (snd (AddTopic ''/baz'' (Playback_Implementation exampleLog))) \<and>
   fst (AddTopic ''/foo'' (Playback_Implementation unopenedLog)) =
     (False, [LERR ''Failed to open log file''])"
  using AddTopic_name_cases [of "''/foo''" "Playback_Implementation exampleLog"]
        AddTopic_name_cases [of "''/baz''" "Playback_Implementation exampleLog"]
        AddTopic_name_cases [of "''/foo''" "Playback_Implementation unopenedLog"]
  by (simp add: AddTopic_def Playback_Implementation_def exampleLog_def unopenedLog_def topicsOf_def)

text \<open>
  Claim C2, as stated, says that the regex overload of \<open>AddTopic\<close> returns a count that is
  never negative, also on an invalid log. On a log that failed to open the source returns
  \<open>-1\<close>.
\<close>

theorem AddTopic_regex_counterexample:
  "fst (fst (AddTopic_regex (\<lambda>topic. True) (Playback_Implementation unopenedLog))) < 0"
  by (simp add: AddTopic_regex_def Playback_Implementation_def unopenedLog_def)

text \<open>
  Claim C2, amended. The regex overload of \<open>AddTopic\<close> always sets \<open>addTopicWasUsed\<close>. On a
  valid log it inserts into the selector set every topic name of the descriptor that the
  pattern matches and returns the number of matching descriptor entries, which is not
  negative. On an invalid log it inserts nothing and returns \<open>-1\<close>.
\<close>

theorem AddTopic_regex_cases:
  "addTopicWasUsed (snd (AddTopic_regex rx p)) \<and>
   (if Valid (logFile p)
    then set (topicNames (snd (AddTopic_regex rx p))) =
           set (topicNames p) \<union> {t \<in> topicsOf (logFile p). rx t} \<and>
         fst (fst (AddTopic_regex rx p)) =
           int (length (filter rx (map fst (Descriptor (logFile p))))) \<and>
         0 \<le> fst (fst (AddTopic_regex rx p))
    else fst (fst (AddTopic_regex rx p)) = - 1 \<and>
         topicNames (snd (AddTopic_regex rx p)) = topicNames p)"
proof -
  obtain names n where l: "AddTopic_loop rx (Descriptor (logFile p)) (topicNames p, 0) = (names, n)"
    by (cases "AddTopic_loop rx (Descriptor (logFile p)) (topicNames p, 0)")
  have 1: "set names = set (topicNames p) \<union> {t \<in> topicsOf (logFile p). rx t}"
    using AddTopic_loop_names [of rx "Descriptor (logFile p)" "topicNames p" 0] l
    by (simp add: topicsOf_def)
  have 2: "n = int (length (filter rx (map fst (Descriptor (logFile p)))))"
    using AddTopic_loop_count [of rx "Descriptor (logFile p)" "topicNames p" 0] l by simp
  show ?thesis
    using l 1 2 by (simp add: AddTopic_regex_def Let_def)
qed

theorem AddTopic_regex_cases_witness:
  "fst (fst (AddTopic_regex (\<lambda>topic. take 2 topic = ''/b'') (Playback_Implementation exampleLog))) = 1 \<and>
   set (topicNames (snd (AddTopic_regex (\<lambda>topic. take 2 topic = ''/b'')
          (Playback_Implementation exampleLog)))) = {''/bar''} \<and>
   fst (fst (AddTopic_regex (\<lambda>topic. True) (Playback_Implementation unopenedLog))) = - 1"
  using AddTopic_regex_cases [of "\<lambda>topic. take 2 topic = ''/b''" "Playback_Implementation exampleLog"]
        AddTopic_regex_cases [of "\<lambda>topic. True" "Playback_Implementation unopenedLog"]
  by (simp add: AddTopic_regex_def Playback_Implementation_def exampleLog_def unopenedLog_def topicsOf_def)

text \<open>
  Claim C4, as stated, asks only that no \<open>AddTopic\<close> call was made before \<open>Start\<close>. A
  \<open>RemoveTopic\<close> call is not an \<open>AddTopic\<close> call, and after it the snapshot is no longer the
  full set of topics.
\<close>

theorem default_to_all_counterexample:
  "list_all (\<lambda>c. \<not> isAddTopic c) [M_RemoveTopic ''/foo''] \<and>
   Valid exampleLog \<and>
   set (Start_topics (mutateAll [M_RemoveTopic ''/foo''] (Playback_Implementation exampleLog)))
     \<noteq> topicsOf exampleLog"
  by (simp add: Start_topics_def RemoveTopic_def DefaultToAllTopics_def
                Playback_Implementation_def exampleLog_def topicsOf_def)

text \<open>
  Claim C4, amended. On a valid log, if no \<open>AddTopic\<close> call has been made on the factory
  before \<open>Start\<close>, the snapshot is the set of the topic names of the descriptor without
  those that a \<open>RemoveTopic\<close> call has named or matched; so it is the full set of topic
  names whenever no such call has named or matched a topic of the descriptor.
\<close>

theorem snapshot_without_add_topic:
  assumes "Valid lg" and "list_all (\<lambda>c. \<not> isAddTopic c) cs"
  shows "set (Start_topics (mutateAll cs (Playback_Implementation lg))) =
           {t \<in> topicsOf lg. list_all (\<lambda>c. \<not> removes c t) cs} \<and>
         (list_all (\<lambda>c. \<forall>t \<in> topicsOf lg. \<not> removes c t) cs \<longrightarrow>
            set (Start_topics (mutateAll cs (Playback_Implementation lg))) = topicsOf lg)"
proof -
  have 1: "set (Start_topics (mutateAll cs (Playback_Implementation lg))) =
           {t \<in> topicsOf lg. list_all (\<lambda>c. \<not> removes c t) cs}"
    using mutateAll_removals [of "Playback_Implementation lg" cs] assms(2)
    by (simp add: set_Start_topics Playback_Implementation_def)
  moreover have "{t \<in> topicsOf lg. list_all (\<lambda>c. \<not> removes c t) cs} = topicsOf lg"
    if "list_all (\<lambda>c. \<forall>t \<in> topicsOf lg. \<not> removes c t) cs"
    using that by (auto simp: list_all_iff)
  ultimately show ?thesis by simp
qed

theorem snapshot_without_add_topic_witness:
  "Valid exampleLog \<and>
   list_all (\<lambda>c. \<not> isAddTopic c) [M_RemoveTopic ''/baz'', M_RemoveTopic_regex (\<lambda>t. t = ''/foo'')] \<and>
   set (Start_topics (mutateAll [M_RemoveTopic ''/baz'', M_RemoveTopic_regex (\<lambda>t. t = ''/foo'')]
          (Playback_Implementation exampleLog))) = {''/bar''} \<and>
   list_all (\<lambda>c. \<not> isAddTopic c) [M_RemoveTopic ''/baz''] \<and>
   set (Start_topics (mutateAll [M_RemoveTopic ''/baz''] (Playback_Implementation exampleLog))) =
     {''/foo'', ''/bar''} \<and>
   set (Start_topics (mutateAll [] (Playback_Implementation exampleLog))) = {''/foo'', ''/bar''}"
proof -
  have v: "Valid exampleLog" by (simp add: exampleLog_def)
  have t: "topicsOf exampleLog = {''/foo'', ''/bar''}"
    by (simp add: exampleLog_def topicsOf_def)
  have "set (Start_topics (mutateAll [M_RemoveTopic ''/baz'', M_RemoveTopic_regex (\<lambda>t. t = ''/foo'')]
          (Playback_Implementation exampleLog))) = {''/bar''}"
    using snapshot_without_add_topic [OF v, of "[M_RemoveTopic ''/baz'', M_RemoveTopic_regex (\<lambda>t. t = ''/foo'')]"]
    unfolding t by auto
  moreover have "set (Start_topics (mutateAll [M_RemoveTopic ''/baz''] (Playback_Implementation exampleLog))) =
     {''/foo'', ''/bar''}"
    using snapshot_without_add_topic [OF v, of "[M_RemoveTopic ''/baz'']"]
    unfolding t by auto
  moreover have "set (Start_topics (mutateAll [] (Playback_Implementation exampleLog))) = {''/foo'', ''/bar''}"
    using snapshot_without_add_topic [OF v, of "[]"]
    unfolding t by auto
  ultimately show ?thesis using v by simp
qed

text \<open>
  Claim C5. On a valid log, if \<open>RemoveTopic(X)\<close> is the only mutator called on a new
  factory, the snapshot taken by \<open>Start\<close> is the set of all topic names of the descriptor
  without \<open>X\<close>.
\<close>

theorem remove_from_default:
  assumes "Valid lg"
  shows "set (Start_topics (snd (RemoveTopic X (Playback_Implementation lg)))) = topicsOf lg - {X}"
  using assms
  by (auto simp: set_Start_topics RemoveTopic_def DefaultToAllTopics_def Let_def
                 Playback_Implementation_def set_insertAll topicsOf_def)

theorem remove_from_default_witness:
  "Valid exampleLog \<and>
   set (Start_topics (snd (RemoveTopic ''/foo'' (Playback_Implementation exampleLog)))) = {''/bar''}"
  using remove_from_default [of exampleLog "''/foo''"]
  by (auto simp add: exampleLog_def topicsOf_def)

section \<open>The worker thread\<close>

lemma exampleHandle_constructed:
  "PlaybackHandle_Implementation exampleLog [''/foo''] = Inr ([], exampleHandle)"
  by (simp add: PlaybackHandle_Implementation_def PlaybackHandle_AddTopic_def CreatePublisher_def
        QueryMessages_def StartPlayback_def exampleHandle_def exampleLog_def Let_def)

lemmas eval_defs = S3_before_stop_def S3_after_stop_def exampleHandle_def exampleLog_def
  StartPlayback_def step_def worker_def FinishedWaiting_def PublishRaw_def Finished_def Let_def

lemma worker_cases:
  assumes "worker now timedOut h = Some h1"
  shows "handleLogFile h1 = handleLogFile h \<and> joined h1 = joined h \<and> waitCall h1 = waitCall h \<and>
         (finished h \<longrightarrow> finished h1)"
  using assms
  by (auto simp: worker_def PublishRaw_def Let_def split: pc.splits list.splits if_splits)

text \<open>What has been published, what the worker holds and what is left of the batch always
  make up the batch the thread was started on.\<close>

lemma worker_prefix:
  assumes "worker now timedOut h = Some h1"
  shows "published h1 @ inHand (pc h1) @ batch h1 = published h @ inHand (pc h) @ batch h"
  using assms
  by (auto simp: worker_def PublishRaw_def Let_def split: pc.splits list.splits if_splits)

lemma step_prefix:
  assumes "step e h = Some h1"
  shows "published h1 @ inHand (pc h1) @ batch h1 = published h @ inHand (pc h) @ batch h"
  using assms worker_prefix
  by (cases e) (auto simp: step_def split: if_splits)

lemma run_prefix:
  "run es h = Some h1 \<Longrightarrow>
   published h1 @ inHand (pc h1) @ batch h1 = published h @ inHand (pc h) @ batch h"
proof (induction es arbitrary: h)
  case Nil
  then show ?case by simp
next
  case (Cons e es)
  then obtain h2 where s: "step e h = Some h2" and r: "run es h2 = Some h1"
    by (auto split: option.splits)
  show ?case using Cons.IH [OF r] step_prefix [OF s] by simp
qed

text \<open>
  Claim C8. Whatever the schedule, if the batch the worker was started on is in
  non-decreasing order of \<open>TimeReceived\<close>, then any two messages published by the handle,
  the \<open>i\<close>-th before the \<open>j\<close>-th, have \<open>TimeReceived\<close> in that order.
\<close>

theorem replay_order:
  assumes "replayOrdered b" and "published h0 = []" and "run es (StartPlayback b h0) = Some h"
      and "i < j" and "j < length (published h)"
  shows "TimeReceived (published h ! i) \<le> TimeReceived (published h ! j)"
proof -
  have "published h @ inHand (pc h) @ batch h = b"
    using run_prefix [OF assms(3)] assms(2) by (simp add: StartPlayback_def)
  then have "replayOrdered (published h @ inHand (pc h) @ batch h)" using assms(1) by simp
  then have "sorted_wrt (\<lambda>m1 m2. TimeReceived m1 \<le> TimeReceived m2) (published h)"
    by (simp add: replayOrdered_def sorted_wrt_append)
  then show ?thesis using assms(4,5) by (simp add: sorted_wrt_iff_nth_less)
qed

theorem replay_order_witness:
  "replayOrdered (Messages exampleLog) \<and> published exampleHandle = [] \<and>
   map_option
     (\<lambda>h. (length (published h), TimeReceived (published h ! 0) \<le> TimeReceived (published h ! 2)))
     (run (WaitUntilFinished_enter # S3_before_stop @ Stop_store # S3_after_stop)
        (StartPlayback (Messages exampleLog) exampleHandle)) = Some (3, True)"
proof -
  let ?S = "WaitUntilFinished_enter # S3_before_stop @ Stop_store # S3_after_stop"
  have b: "replayOrdered (Messages exampleLog)"
    by (simp add: replayOrdered_def exampleLog_def)
  have p: "published exampleHandle = []"
    by (simp add: exampleHandle_def)
  have "map_option (\<lambda>h. length (published h))
          (run ?S (StartPlayback (Messages exampleLog) exampleHandle)) = Some 3"
    by (simp add: eval_defs)
  then obtain h where r: "run ?S (StartPlayback (Messages exampleLog) exampleHandle) = Some h"
    and l: "length (published h) = 3"
    by auto
  have "TimeReceived (published h ! 0) \<le> TimeReceived (published h ! 2)"
    using replay_order [OF b p r, of 0 2] l by simp
  then show ?thesis using b p r l by simp
qed

text \<open>Once the worker has entered the timed wait for a message, that message is published
  or about to be, whatever the other threads do.\<close>

lemma worker_committed:
  assumes "worker now timedOut h = Some h1"
      and "pc h = InWaitFor msg \<or> pc h = AtPublish msg \<or> msg \<in> set (published h)"
  shows "pc h1 = InWaitFor msg \<or> pc h1 = AtPublish msg \<or> msg \<in> set (published h1)"
  using assms
  by (auto simp: worker_def PublishRaw_def Let_def split: pc.splits list.splits if_splits)

lemma step_committed:
  assumes "step e h = Some h1"
      and "pc h = InWaitFor msg \<or> pc h = AtPublish msg \<or> msg \<in> set (published h)"
  shows "pc h1 = InWaitFor msg \<or> pc h1 = AtPublish msg \<or> msg \<in> set (published h1)"
proof (cases e)
  case (Worker now timedOut)
  then show ?thesis using assms worker_committed by (simp add: step_def)
qed (use assms in \<open>auto simp: step_def split: if_splits\<close>)

lemma run_committed:
  "run es h = Some h1 \<Longrightarrow>
   pc h = InWaitFor msg \<or> pc h = AtPublish msg \<or> msg \<in> set (published h) \<Longrightarrow>
   pc h1 = InWaitFor msg \<or> pc h1 = AtPublish msg \<or> msg \<in> set (published h1)"
proof (induction es arbitrary: h)
  case Nil
  then show ?case by simp
next
  case (Cons e es)
  then obtain h2 where s: "step e h = Some h2" and r: "run es h2 = Some h1"
    by (auto split: option.splits)
  show ?case using Cons.IH [OF r step_committed [OF s Cons.prems(2)]] .
qed

text \<open>
  Claim C1 says that a \<open>Stop()\<close> called while the worker is in the timed wait before a
  message keeps that message from being published. In the source the store to \<open>stop\<close>
  makes the predicate of the wait true, the wait returns, and the statement after it is
  the publication: for every clock reading the next step of the worker leaves the wait
  for the publication, and every execution in which the thread function returns has
  published the message.
\<close>

theorem stop_during_wait_still_publishes:
  assumes "pc h = InWaitFor msg" and "stop h"
      and "run es h = Some h1" and "pc h1 = Returned"
  shows "worker now timedOut h = Some (h\<lparr>pc := AtPublish msg\<rparr>) \<and> msg \<in> set (published h1)"
proof -
  have "pc h1 = InWaitFor msg \<or> pc h1 = AtPublish msg \<or> msg \<in> set (published h1)"
    using run_committed [OF assms(3)] assms(1) by simp
  then have "msg \<in> set (published h1)" using assms(4) by simp
  moreover have "worker now timedOut h = Some (h\<lparr>pc := AtPublish msg\<rparr>)"
    using assms(1,2) by (simp add: worker_def FinishedWaiting_def)
  ultimately show ?thesis by simp
qed

lemma run_append:
  "run (es1 @ es2) h = (case run es1 h of None \<Rightarrow> None | Some h1 \<Rightarrow> run es2 h1)"
  by (induction es1 arbitrary: h) (auto split: option.splits)

theorem stop_during_wait_still_publishes_witness:
  "map_option (\<lambda>h. (pc h, stop h, map TimeReceived (published h)))
     (run (WaitUntilFinished_enter # S3_before_stop @ [Stop_store]) exampleHandle) =
     Some (InWaitFor \<lparr>Topic = ''/foo'', Type = ''msgs.StringMsg'', TimeReceived = 250000000, Data = ''c''\<rparr>,
           True, [0, 100000000]) \<and>
   map_option (\<lambda>h. (pc h, map TimeReceived (published h), Finished h, waitCall h))
     (run ((WaitUntilFinished_enter # S3_before_stop @ [Stop_store]) @ S3_after_stop) exampleHandle) =
     Some (Returned, [0, 100000000, 250000000], True, HasReturned)"
proof -
  let ?m = "\<lparr>Topic = ''/foo'', Type = ''msgs.StringMsg'', TimeReceived = 250000000, Data = ''c''\<rparr>"
  let ?A = "WaitUntilFinished_enter # S3_before_stop @ [Stop_store]"
  have A: "map_option (\<lambda>h. (pc h, stop h, map TimeReceived (published h))) (run ?A exampleHandle) =
             Some (InWaitFor ?m, True, [0, 100000000])"
    by (simp add: eval_defs)
  have B: "map_option (\<lambda>h. (pc h, map TimeReceived (published h), Finished h, waitCall h))
             (run (?A @ S3_after_stop) exampleHandle) =
             Some (Returned, [0, 100000000, 250000000], True, HasReturned)"
    by (simp add: eval_defs)
  obtain h where r: "run ?A exampleHandle = Some h" and w: "pc h = InWaitFor ?m" and s: "stop h"
    using A by auto
  obtain h1 where r1: "run (?A @ S3_after_stop) exampleHandle = Some h1" and e: "pc h1 = Returned"
    using B by auto
  have "Some h1 = (case Some h of None \<Rightarrow> None | Some x \<Rightarrow> run S3_after_stop x)"
    using run_append [of ?A S3_after_stop exampleHandle] by (simp only: r r1)
  then have r2: "run S3_after_stop h = Some h1" by simp
  have "?m \<in> set (published h1)"
    using stop_during_wait_still_publishes [OF w s r2 e] by simp
  then show ?thesis using A B by simp
qed

section \<open>Waiting for the end of the replay\<close>

text \<open>A call of \<open>WaitUntilFinished\<close> that is under way has returned only if \<open>finished\<close> is
  set, provided this was so when it passed its guard.\<close>

lemma step_returned_finished:
  assumes "step e h = Some h1"
      and "waitCall h \<noteq> NotCalled" and "waitCall h = HasReturned \<longrightarrow> finished h"
  shows "waitCall h1 \<noteq> NotCalled \<and> (waitCall h1 = HasReturned \<longrightarrow> finished h1)"
proof (cases e)
  case (Worker now timedOut)
  then show ?thesis using assms worker_cases [of now timedOut h h1] by (simp add: step_def)
qed (use assms in \<open>auto simp: step_def split: if_splits\<close>)

lemma run_returned_finished:
  "run es h = Some h1 \<Longrightarrow> waitCall h \<noteq> NotCalled \<Longrightarrow>
   (waitCall h = HasReturned \<longrightarrow> finished h) \<Longrightarrow>
   waitCall h1 = HasReturned \<longrightarrow> finished h1"
proof (induction es arbitrary: h)
  case Nil
  then show ?case by simp
next
  case (Cons e es)
  then obtain h2 where s: "step e h = Some h2" and r: "run es h2 = Some h1"
    by (auto split: option.splits)
  have "waitCall h2 \<noteq> NotCalled \<and> (waitCall h2 = HasReturned \<longrightarrow> finished h2)"
    using step_returned_finished [OF s Cons.prems(2,3)] .
  then show ?case using Cons.IH [OF r] by simp
qed

text \<open>As long as no thread has called \<open>Stop()\<close>, only the worker sets \<open>stop\<close>, and it sets
  \<open>finished\<close> first.\<close>

lemma worker_stop_finished:
  assumes "worker now timedOut h = Some h1"
      and "(stop h \<longrightarrow> finished h) \<and> (pc h \<in> {AtSetStop, AtNotify, Returned} \<longrightarrow> finished h)"
  shows "(stop h1 \<longrightarrow> finished h1) \<and> (pc h1 \<in> {AtSetStop, AtNotify, Returned} \<longrightarrow> finished h1)"
  using assms
  by (auto simp: worker_def PublishRaw_def Let_def split: pc.splits list.splits if_splits)

lemma step_stop_finished:
  assumes "step e h = Some h1" and "e \<noteq> Stop_store"
      and "(stop h \<longrightarrow> finished h) \<and> (pc h \<in> {AtSetStop, AtNotify, Returned} \<longrightarrow> finished h)"
  shows "(stop h1 \<longrightarrow> finished h1) \<and> (pc h1 \<in> {AtSetStop, AtNotify, Returned} \<longrightarrow> finished h1)"
proof (cases e)
  case (Worker now timedOut)
  then show ?thesis using assms worker_stop_finished [of now timedOut h h1] by (simp add: step_def)
qed (use assms in \<open>auto simp: step_def split: if_splits\<close>)

lemma run_stop_finished:
  "run es h = Some h1 \<Longrightarrow> Stop_store \<notin> set es \<Longrightarrow>
   (stop h \<longrightarrow> finished h) \<and> (pc h \<in> {AtSetStop, AtNotify, Returned} \<longrightarrow> finished h) \<Longrightarrow>
   (stop h1 \<longrightarrow> finished h1) \<and> (pc h1 \<in> {AtSetStop, AtNotify, Returned} \<longrightarrow> finished h1)"
proof (induction es arbitrary: h)
  case Nil
  then show ?case by simp
next
  case (Cons e es)
  then obtain h2 where s: "step e h = Some h2" and r: "run es h2 = Some h1"
    by (auto split: option.splits)
  have ne: "e \<noteq> Stop_store" and rest: "Stop_store \<notin> set es" using Cons.prems(2) by auto
  show ?case
    using Cons.IH [OF r rest step_stop_finished [OF s ne Cons.prems(3)]] .
qed

lemma no_Stop_call_stop_finished:
  assumes "run es (StartPlayback b h0) = Some h" and "Stop_store \<notin> set es"
  shows "stop h \<longrightarrow> finished h"
  using run_stop_finished [OF assms] by (simp add: StartPlayback_def)

text \<open>Once the join of a \<open>Stop()\<close> call has returned, \<open>finished\<close> is set.\<close>

lemma run_joined_finished:
  "run es h = Some h1 \<Longrightarrow>
   (joined h \<or> pc h \<in> {AtSetStop, AtNotify, Returned} \<longrightarrow> finished h) \<Longrightarrow>
   (joined h1 \<or> pc h1 \<in> {AtSetStop, AtNotify, Returned} \<longrightarrow> finished h1)"
proof (induction es arbitrary: h)
  case Nil
  then show ?case by simp
next
  case (Cons e es)
  then obtain h2 where s: "step e h = Some h2" and r: "run es h2 = Some h1"
    by (auto split: option.splits)
  have "joined h2 \<or> pc h2 \<in> {AtSetStop, AtNotify, Returned} \<longrightarrow> finished h2"
  proof (cases e)
    case (Worker now timedOut)
    then have "worker now timedOut h = Some h2" using s by (simp add: step_def)
    then show ?thesis using Cons.prems(2)
      by (auto simp: worker_def PublishRaw_def Let_def split: pc.splits list.splits if_splits)
  qed (use s Cons.prems(2) in \<open>auto simp: step_def split: if_splits\<close>)
  then show ?case using Cons.IH [OF r] by simp
qed

lemma after_Stop_returned_finished:
  assumes "run es (StartPlayback b h0) = Some h" and "\<not> joined h0" and "joined h"
  shows "finished h"
  using run_joined_finished [OF assms(1)] assms(2,3) by (simp add: StartPlayback_def)

text \<open>
  Claim C3, as stated, is about every handle and every call. A call of
  \<open>WaitUntilFinished\<close> that finds \<open>stop\<close> set returns without waiting; when another thread
  is inside \<open>Stop()\<close>, has stored the flag, and the worker has not reached its exit yet,
  \<open>Finished()\<close> is still false after the return.
\<close>

theorem wait_returns_early_counterexample:
  "map_option (\<lambda>h. (waitCall h, Finished h))
     (run [Stop_store, WaitUntilFinished_enter] exampleHandle) = Some (HasReturned, False)"
  by (simp add: step_def exampleHandle_def exampleLog_def Finished_def)

text \<open>
  Claim C3, amended. For a handle on a valid log, if on entry to \<open>WaitUntilFinished\<close> the
  flag \<open>stop\<close> is clear or \<open>finished\<close> is already set (which is the case whenever no
  \<open>Stop()\<close> call is under way, by \<open>no_Stop_call_stop_finished\<close> and
  \<open>after_Stop_returned_finished\<close>), then \<open>Finished()\<close> is true once the call has returned.
\<close>

theorem wait_until_finished_then_finished:
  assumes "Valid (handleLogFile h0)" and "waitCall h0 = NotCalled"
      and "stop h0 \<longrightarrow> finished h0"
      and "run (WaitUntilFinished_enter # es) h0 = Some h" and "waitCall h = HasReturned"
  shows "Finished h"
proof -
  obtain h1 where s: "step WaitUntilFinished_enter h0 = Some h1" and r: "run es h1 = Some h"
    using assms(4) by (auto split: option.splits)
  have "waitCall h1 \<noteq> NotCalled \<and> (waitCall h1 = HasReturned \<longrightarrow> finished h1)"
    using s assms(1,2,3) by (auto simp: step_def split: if_splits)
  then have "waitCall h = HasReturned \<longrightarrow> finished h"
    using run_returned_finished [OF r] by simp
  then show ?thesis using assms(5) by (simp add: Finished_def)
qed

theorem wait_until_finished_then_finished_witness:
  "Valid (handleLogFile exampleHandle) \<and> waitCall exampleHandle = NotCalled \<and>
   \<not> stop exampleHandle \<and>
   map_option (\<lambda>h. (waitCall h, Finished h))
     (run (WaitUntilFinished_enter # S3_before_stop @ Stop_store # S3_after_stop) exampleHandle) =
     Some (HasReturned, True)"
proof -
  let ?es = "S3_before_stop @ Stop_store # S3_after_stop"
  have v: "Valid (handleLogFile exampleHandle)" and n: "waitCall exampleHandle = NotCalled"
    and s: "\<not> stop exampleHandle"
    by (simp_all add: exampleHandle_def exampleLog_def)
  have "map_option waitCall (run (WaitUntilFinished_enter # ?es) exampleHandle) = Some HasReturned"
    by (simp add: eval_defs)
  then obtain h where r: "run (WaitUntilFinished_enter # ?es) exampleHandle = Some h"
    and c: "waitCall h = HasReturned"
    by auto
  have "Finished h"
    using wait_until_finished_then_finished [OF v n _ r c] s by simp
  then show ?thesis using v n s r c by simp
qed

section \<open>Constructing handles\<close>

lemma AddTopics_Inr:
  "set topics \<subseteq> topicsOf lg \<Longrightarrow> \<exists>pubs1. AddTopics lg topics pubs = Inr pubs1"
proof (induction topics arbitrary: pubs)
  case Nil
  show ?case by simp
next
  case (Cons t topics)
  then have "t \<in> fst ` set (Descriptor lg)" by (simp add: topicsOf_def)
  then obtain types where "map_of (Descriptor lg) t = Some types"
    using map_of_None_iff [of "Descriptor lg" t] by (cases "map_of (Descriptor lg) t") auto
  then show ?case using Cons by (simp add: PlaybackHandle_AddTopic_def)
qed

lemma AddTopics_Inl:
  "t \<in> set topics \<Longrightarrow> t \<notin> topicsOf lg \<Longrightarrow> AddTopics lg topics pubs = Inl EndIteratorDereference"
proof (induction topics arbitrary: pubs)
  case Nil
  then show ?case by simp
next
  case (Cons u topics)
  show ?case
  proof (cases "map_of (Descriptor lg) u")
    case None
    then show ?thesis by (simp add: PlaybackHandle_AddTopic_def)
  next
    case (Some types)
    then have "u \<in> topicsOf lg" using map_of_Some_in by (fastforce simp: topicsOf_def)
    then have "t \<in> set topics" using Cons.prems by auto
    then show ?thesis using Some Cons.IH Cons.prems(2) by (simp add: PlaybackHandle_AddTopic_def)
  qed
qed

lemma PlaybackHandle_Implementation_Inr:
  assumes "set topics \<subseteq> topicsOf lg"
  shows "\<exists>out h. PlaybackHandle_Implementation lg topics = Inr (out, h) \<and>
                 \<not> finished h \<and> \<not> stop h \<and> published h = [] \<and> handleLogFile h = lg \<and>
                 batch h = QueryMessages lg topics"
proof -
  obtain pubs where "AddTopics lg topics Map.empty = Inr pubs"
    using AddTopics_Inr [OF assms] by blast
  then show ?thesis
    by (simp add: PlaybackHandle_Implementation_def StartPlayback_def Let_def)
qed

section \<open>Programs over a factory\<close>

lemma lastHandle_mutate [simp]: "lastHandle (mutate c p) = lastHandle p"
  by (cases c)
     (auto simp: AddTopic_def AddTopic_regex_def RemoveTopic_def RemoveTopic_regex_def
                 DefaultToAllTopics_def Let_def split: option.splits prod.splits)

lemma Start_topics_subset:
  "set (topicNames p) \<subseteq> topicsOf (logFile p) \<Longrightarrow> set (Start_topics p) \<subseteq> topicsOf (logFile p)"
  by (simp add: set_Start_topics)

lemma consistent_boot: "consistent ts lg (boot lg)"
  by (simp add: consistent_def boot_def Playback_Implementation_def)

lemma Start_consistent:
  assumes "consistent ts lg s"
  shows "\<exists>res s1. Start ts s = Inr (res, s1) \<and> consistent ts lg s1"
proof -
  let ?p = "playback s"
  have lg: "logFile ?p = lg" and sub: "set (topicNames ?p) \<subseteq> topicsOf lg"
    and fr: "\<forall>x. fresh s \<le> x \<longrightarrow> handles s x = None"
    using assms by (simp_all add: consistent_def)
  obtain out h where c: "PlaybackHandle_Implementation lg (Start_topics ?p) = Inr (out, h)"
    using PlaybackHandle_Implementation_Inr [of "Start_topics ?p" lg] Start_topics_subset [of ?p] lg sub
    by auto
  show ?thesis
    using assms c lg
    by (auto simp: Start_def Let_def consistent_def split: option.splits)
qed

lemma act_consistent:
  assumes "consistent ts lg s"
  shows "act ts a s \<noteq> Inl (Faulted f) \<and> (\<forall>s1. act ts a s = Inr s1 \<longrightarrow> consistent ts lg s1)"
proof (cases a)
  case (Select c)
  then show ?thesis using assms topicNames_mutate [of "playback s" c]
    by (auto simp: act_def consistent_def)
next
  case Call_Start
  obtain res s1 where "Start ts s = Inr (res, s1)" and "consistent ts lg s1"
    using Start_consistent [OF assms] by blast
  then show ?thesis using Call_Start by (simp add: act_def)
next
  case (On_handle x e)
  have "handles s x \<noteq> None \<Longrightarrow> x < fresh s" for x
    using assms by (auto simp: consistent_def not_le [symmetric])
  then show ?thesis using On_handle assms
    by (auto simp: act_def consistent_def split: option.splits)
next
  case (Release x)
  then show ?thesis using assms
    by (auto simp: act_def consistent_def split: option.splits)
next
  case (Reclaim x)
  then show ?thesis using assms
    by (auto simp: act_def consistent_def split: option.splits)
qed

lemma exec_consistent:
  "consistent ts lg s \<Longrightarrow>
   exec ts acts s \<noteq> Inl (Faulted f) \<and> (\<forall>s1. exec ts acts s = Inr s1 \<longrightarrow> consistent ts lg s1)"
proof (induction acts arbitrary: s)
  case Nil
  then show ?case by simp
next
  case (Cons a acts)
  show ?case
  proof (cases "act ts a s")
    case (Inl x)
    then show ?thesis using act_consistent [OF Cons.prems, of a f] by simp
  next
    case (Inr s2)
    then have "consistent ts lg s2" using act_consistent [OF Cons.prems, of a f] by simp
    then show ?thesis using Cons.IH [of s2] Inr by simp
  qed
qed
lemmas system_defs = boot_def act_def Start_def lock_def Start_topics_def
  PlaybackHandle_Implementation_def PlaybackHandle_AddTopic_def CreatePublisher_def
  QueryMessages_def Playback_Implementation_def singleThreadedWarning_def Let_def

text \<open>
  Claim C10. In every state that a program reaches from a new factory on a log, by any
  sequence of selector mutators, \<open>Start\<close> calls, steps of handles and drops of handles, the
  selector set is a subset of the topic names of the descriptor, and so is the snapshot
  that \<open>Start\<close> would pass to the constructor of the handle; no program run ever
  dereferences the end iterator in \<open>PlaybackHandle::Implementation::AddTopic\<close>, and a
  \<open>Start\<close> in the reached state does not either.
\<close>

theorem selector_within_descriptor:
  "exec ts acts (boot lg) \<noteq> Inl (Faulted EndIteratorDereference) \<and>
   (\<forall>s. exec ts acts (boot lg) = Inr s \<longrightarrow>
      set (topicNames (playback s)) \<subseteq> topicsOf lg \<and>
      set (Start_topics (playback s)) \<subseteq> topicsOf lg \<and>
      Start ts s \<noteq> Inl EndIteratorDereference)"
proof -
  have nf: "exec ts acts (boot lg) \<noteq> Inl (Faulted EndIteratorDereference)"
    and c: "\<forall>s. exec ts acts (boot lg) = Inr s \<longrightarrow> consistent ts lg s"
    using exec_consistent [OF consistent_boot, where acts = acts and f = EndIteratorDereference and ts = ts and lg = lg]
    by simp_all
  have "set (topicNames (playback s)) \<subseteq> topicsOf lg \<and>
        set (Start_topics (playback s)) \<subseteq> topicsOf lg \<and>
        Start ts s \<noteq> Inl EndIteratorDereference"
    if "exec ts acts (boot lg) = Inr s" for s
  proof -
    have cs: "consistent ts lg s" using c that by simp
    then have "set (topicNames (playback s)) \<subseteq> topicsOf lg" and "logFile (playback s) = lg"
      by (simp_all add: consistent_def)
    moreover have "set (Start_topics (playback s)) \<subseteq> topicsOf lg"
      using calculation Start_topics_subset [of "playback s"] by simp
    moreover have "Start ts s \<noteq> Inl EndIteratorDereference"
      using Start_consistent [OF cs] by auto
    ultimately show ?thesis by simp
  qed
  then show ?thesis using nf by simp
qed

theorem selector_within_descriptor_witness:
  "case exec False [Select (M_AddTopic ''/baz''), Select (M_RemoveTopic_regex (\<lambda>topic. topic = ''/foo'')),
                    Select (M_AddTopic ''/bar'')] (boot exampleLog) of
     Inl x \<Rightarrow> False
   | Inr s \<Rightarrow> topicNames (playback s) = [''/bar''] \<and>
             set (topicNames (playback s)) \<subseteq> topicsOf exampleLog \<and>
             set (Start_topics (playback s)) \<subseteq> topicsOf exampleLog \<and>
             Start False s \<noteq> Inl EndIteratorDereference"
proof -
  let ?acts = "[Select (M_AddTopic ''/baz''), Select (M_RemoveTopic_regex (\<lambda>topic. topic = ''/foo'')),
                Select (M_AddTopic ''/bar'')]"
  have "case exec False ?acts (boot exampleLog) of
          Inl x \<Rightarrow> False | Inr s \<Rightarrow> topicNames (playback s) = [''/bar'']"
    by (simp add: boot_def act_def Playback_Implementation_def AddTopic_def RemoveTopic_regex_def
          DefaultToAllTopics_def exampleLog_def)
  then obtain s where e: "exec False ?acts (boot exampleLog) = Inr s"
    and t: "topicNames (playback s) = [''/bar'']"
    by (cases "exec False ?acts (boot exampleLog)") auto
  have "set (topicNames (playback s)) \<subseteq> topicsOf exampleLog \<and>
        set (Start_topics (playback s)) \<subseteq> topicsOf exampleLog \<and>
        Start False s \<noteq> Inl EndIteratorDereference"
    using selector_within_descriptor [of False ?acts exampleLog] e by blast
  then show ?thesis using e t by simp
qed

text \<open>
  Claim C6. Without a threadsafe sqlite3, in every state that a program reaches from a
  new factory on a valid log, \<open>lastHandle\<close> is the handle that was issued last. If that
  handle is still alive (some shared pointer owns it, so that the weak pointer locks) and
  not finished, \<open>Start\<close> gives the warning, returns no handle and changes nothing. If it
  is gone (the last shared pointer has been dropped) or finished, or none was issued,
  \<open>Start\<close> returns a new handle, at an address at which no handle lived, not finished, and
  records it in \<open>lastHandle\<close>.
\<close>

theorem one_handle_at_a_time:
  assumes "exec False acts (boot lg) = Inr s" and "Valid lg"
  shows "lastHandle (playback s) = (if fresh s = 0 then None else Some (fresh s - 1)) \<and>
         (if \<exists>h. lock s (lastHandle (playback s)) = Some h \<and> \<not> Finished h
          then Start False s = Inr ((None, [singleThreadedWarning]), s)
          else \<exists>out s1 h1. Start False s = Inr ((Some (fresh s), out), s1) \<and>
                 handles s (fresh s) = None \<and>
                 handles s1 (fresh s) = Some h1 \<and> \<not> Finished h1 \<and>
                 lastHandle (playback s1) = Some (fresh s))"
proof -
  let ?p = "playback s"
  have c: "consistent False lg s"
    using exec_consistent [OF consistent_boot, where acts = acts and ts = False and lg = lg] assms(1)
    by simp
  then have lg: "logFile ?p = lg" and sub: "set (topicNames ?p) \<subseteq> topicsOf lg"
    and fr: "handles s (fresh s) = None"
    and lh: "lastHandle ?p = (if fresh s = 0 then None else Some (fresh s - 1))"
    by (simp_all add: consistent_def)
  obtain out h where k: "PlaybackHandle_Implementation lg (Start_topics ?p) = Inr (out, h)"
    and nf: "\<not> finished h"
    using PlaybackHandle_Implementation_Inr [of "Start_topics ?p" lg] Start_topics_subset [of ?p] lg sub
    by auto
  show ?thesis
  proof (cases "\<exists>h. lock s (lastHandle ?p) = Some h \<and> \<not> Finished h")
    case True
    then show ?thesis using lh lg assms(2)
      by (auto simp: Start_def Let_def singleThreadedWarning_def)
  next
    case False
    then have "Start False s =
        Inr ((Some (fresh s), out),
             s\<lparr>playback := ?p\<lparr>lastHandle := Some (fresh s)\<rparr>,
               handles := (handles s)(fresh s \<mapsto> h), fresh := Suc (fresh s)\<rparr>)"
      using lg assms(2) k by (auto simp: Start_def Let_def split: option.splits)
    then show ?thesis using False lh fr nf by (simp add: Finished_def)
  qed
qed

theorem one_handle_at_a_time_witness:
  "Valid exampleLog \<and>
   (case exec False [Call_Start] (boot exampleLog) of
      Inl x \<Rightarrow> False
    | Inr s \<Rightarrow> map_option Finished (lock s (lastHandle (playback s))) = Some False \<and>
              Start False s = Inr ((None, [singleThreadedWarning]), s)) \<and>
   (case exec False S6_start_drop (boot exampleLog) of
      Inl x \<Rightarrow> False
    | Inr s \<Rightarrow> lock s (lastHandle (playback s)) = None \<and>
              map_option finished (destroying s 0) = Some False \<and>
              map_sum id fst (Start False s) = Inr (Some 1, [])) \<and>
   (case exec False S6_start_drop_destroyed (boot exampleLog) of
      Inl x \<Rightarrow> False
    | Inr s \<Rightarrow> lock s (lastHandle (playback s)) = None \<and> destroying s 0 = None \<and>
              map_sum id fst (Start False s) = Inr (Some 1, [])) \<and>
   (case exec False S6_start_finished (boot exampleLog) of
      Inl x \<Rightarrow> False
    | Inr s \<Rightarrow> map_option Finished (lock s (lastHandle (playback s))) = Some True \<and>
              map_sum id fst (Start False s) = Inr (Some 1, []))"
proof -
  note ev = system_defs StartPlayback_def step_def worker_def Finished_def exampleLog_def
    S6_start_drop_def S6_start_drop_destroyed_def S6_start_finished_def
  have v: "Valid exampleLog" by (simp add: exampleLog_def)
  have 1: "case exec False [Call_Start] (boot exampleLog) of
      Inl x \<Rightarrow> False
    | Inr s \<Rightarrow> map_option Finished (lock s (lastHandle (playback s))) = Some False"
    by (simp add: ev)
  have 2: "case exec False S6_start_drop (boot exampleLog) of
      Inl x \<Rightarrow> False
    | Inr s \<Rightarrow> lock s (lastHandle (playback s)) = None \<and>
              map_option finished (destroying s 0) = Some False \<and>
              map_sum id fst (Start False s) = Inr (Some 1, [])"
    by (simp add: ev)
  have 3: "case exec False S6_start_drop_destroyed (boot exampleLog) of
      Inl x \<Rightarrow> False
    | Inr s \<Rightarrow> lock s (lastHandle (playback s)) = None \<and> destroying s 0 = None \<and>
              map_sum id fst (Start False s) = Inr (Some 1, [])"
    by (simp add: ev)
  have 4: "case exec False S6_start_finished (boot exampleLog) of
      Inl x \<Rightarrow> False
    | Inr s \<Rightarrow> map_option Finished (lock s (lastHandle (playback s))) = Some True \<and>
              map_sum id fst (Start False s) = Inr (Some 1, [])"
    by (simp add: ev)
  obtain s1 where e1: "exec False [Call_Start] (boot exampleLog) = Inr s1"
    and a1: "map_option Finished (lock s1 (lastHandle (playback s1))) = Some False"
    using 1 by (cases "exec False [Call_Start] (boot exampleLog)") auto
  obtain s2 where e2: "exec False S6_start_drop (boot exampleLog) = Inr s2"
    and a2: "lock s2 (lastHandle (playback s2)) = None"
    using 2 by (cases "exec False S6_start_drop (boot exampleLog)") auto
  have "Start False s1 = Inr ((None, [singleThreadedWarning]), s1)"
    using one_handle_at_a_time [OF e1 v] a1 by (auto split: if_splits)
  moreover have "\<exists>out s3. Start False s2 = Inr ((Some (fresh s2), out), s3)"
    using one_handle_at_a_time [OF e2 v] a2 by (auto split: if_splits)
  ultimately show ?thesis using v e1 a1 2 3 4 by simp
qed

section \<open>The snapshot is frozen\<close>

lemma act_handle_frame:
  assumes "act ts a s = Inr s1" and "handles s x = Some h" and "x < fresh s" and "a \<noteq> Release x"
  shows "x < fresh s1 \<and>
         handles s1 x = (case a of On_handle y e \<Rightarrow> if y = x then step e h else Some h
                         | _ \<Rightarrow> Some h)"
proof (cases a)
  case (Select c)
  then show ?thesis using assms by (auto simp: act_def)
next
  case Call_Start
  then show ?thesis using assms
    by (auto simp: act_def Start_def Let_def split: sum.splits if_splits prod.splits option.splits)
next
  case (On_handle y e)
  then show ?thesis using assms by (auto simp: act_def split: option.splits if_splits)
next
  case (Release y)
  then show ?thesis using assms by (auto simp: act_def split: option.splits)
next
  case (Reclaim y)
  then show ?thesis using assms by (auto simp: act_def split: option.splits)
qed

lemma exec_handle_frame:
  "exec ts acts s = Inr s2 \<Longrightarrow> handles s x = Some h \<Longrightarrow> x < fresh s \<Longrightarrow>
   Release x \<notin> set acts \<Longrightarrow> handles s2 x = run (events_of x acts) h"
proof (induction acts arbitrary: s h)
  case Nil
  then show ?case by simp
next
  case (Cons a acts)
  then obtain s1 where a1: "act ts a s = Inr s1" and e: "exec ts acts s1 = Inr s2"
    by (auto split: sum.splits)
  have na: "a \<noteq> Release x" and nr: "Release x \<notin> set acts" using Cons.prems(4) by auto
  have f: "x < fresh s1" and
    hs: "handles s1 x = (case a of On_handle y e \<Rightarrow> if y = x then step e h else Some h
                         | _ \<Rightarrow> Some h)"
    using act_handle_frame [OF a1 Cons.prems(2,3) na] by simp_all
  show ?case
  proof (cases "\<exists>e. a = On_handle x e")
    case True
    then obtain ev where a: "a = On_handle x ev" by blast
    then obtain h1 where s: "step ev h = Some h1"
      using a1 Cons.prems(2) by (auto simp: act_def split: option.splits)
    then have "handles s1 x = Some h1" using hs a by simp
    then have "handles s2 x = run (events_of x acts) h1"
      using Cons.IH [OF e _ f nr] by simp
    then show ?thesis using a s by simp
  next
    case False
    then have "handles s1 x = Some h" using hs by (cases a) auto
    then have "handles s2 x = run (events_of x acts) h"
      using Cons.IH [OF e _ f nr] by simp
    moreover have "events_of x (a # acts) = events_of x acts" using False by (cases a) auto
    ultimately show ?thesis by simp
  qed
qed

text \<open>
  Claim C7. Let \<open>Start\<close> return the handle \<open>x\<close>, built from the snapshot taken in that call.
  Whatever the program does afterwards, as long as it does not drop the handle, the state
  of the handle (its publishers table, the messages it has published, its flags) is the
  one that the handle's own events produce from the state it was constructed in. Calls of
  \<open>AddTopic\<close> and \<open>RemoveTopic\<close> on the factory are no events of the handle, so they change
  nothing of it.
\<close>

theorem snapshot_frozen:
  assumes "Start ts s = Inr ((Some x, out), s1)"
      and "exec ts acts s1 = Inr s2" and "Release x \<notin> set acts"
  shows "\<exists>h. handles s1 x = Some h \<and>
             PlaybackHandle_Implementation (logFile (playback s)) (Start_topics (playback s)) = Inr (out, h) \<and>
             handles s2 x = run (events_of x acts) h \<and>
             events_of x acts = events_of x (filter (\<lambda>a. \<forall>c. a \<noteq> Select c) acts)"
proof -
  obtain h where k: "PlaybackHandle_Implementation (logFile (playback s)) (Start_topics (playback s)) = Inr (out, h)"
    and hx: "handles s1 x = Some h" and fx: "x < fresh s1"
    using assms(1)
    by (auto simp: Start_def Let_def split: sum.splits if_splits prod.splits option.splits)
  have "handles s2 x = run (events_of x acts) h"
    using exec_handle_frame [OF assms(2) hx fx assms(3)] .
  moreover have "events_of x as = events_of x (filter (\<lambda>a. \<forall>c. a \<noteq> Select c) as)" for as
    by (induction as rule: events_of.induct) auto
  ultimately show ?thesis using k hx by simp
qed
theorem snapshot_frozen_witness:
  "case exec True [Select (M_AddTopic ''/foo'')] (boot exampleLog) of
     Inl x \<Rightarrow> False
   | Inr s \<Rightarrow>
       (case Start True s of
          Inl f \<Rightarrow> False
        | Inr (res, s1) \<Rightarrow>
            res = (Some 0, []) \<and> handles s1 0 = Some exampleHandle \<and>
            (case exec True mutateWhileReplaying s1 of
               Inl x \<Rightarrow> False
             | Inr s2 \<Rightarrow>
                 Release 0 \<notin> set mutateWhileReplaying \<and>
                 handles s2 0 = run [Worker 0 False, Worker 0 False] exampleHandle \<and>
                 map_option (\<lambda>h. map Data (published h)) (handles s2 0) = Some [''a''] \<and>
                 topicNames (playback s2) = [''/bar'']))"
proof -
  have E: "case exec True [Select (M_AddTopic ''/foo'')] (boot exampleLog) of
     Inl x \<Rightarrow> False
   | Inr s \<Rightarrow>
       (case Start True s of
          Inl f \<Rightarrow> False
        | Inr (res, s1) \<Rightarrow>
            res = (Some 0, []) \<and> handles s1 0 = Some exampleHandle \<and>
            (case exec True mutateWhileReplaying s1 of
               Inl x \<Rightarrow> False
             | Inr s2 \<Rightarrow>
                 Release 0 \<notin> set mutateWhileReplaying \<and>
                 map_option (\<lambda>h. map Data (published h)) (handles s2 0) = Some [''a''] \<and>
                 topicNames (playback s2) = [''/bar'']))"
    by (simp add: mutateWhileReplaying_def system_defs AddTopic_def RemoveTopic_def
          DefaultToAllTopics_def StartPlayback_def step_def worker_def PublishRaw_def
          exampleHandle_def exampleLog_def)
  then obtain s where e0: "exec True [Select (M_AddTopic ''/foo'')] (boot exampleLog) = Inr s"
    and E1: "case Start True s of
          Inl f \<Rightarrow> False
        | Inr (res, s1) \<Rightarrow>
            res = (Some 0, []) \<and> handles s1 0 = Some exampleHandle \<and>
            (case exec True mutateWhileReplaying s1 of
               Inl x \<Rightarrow> False
             | Inr s2 \<Rightarrow> Release 0 \<notin> set mutateWhileReplaying)"
    by (cases "exec True [Select (M_AddTopic ''/foo'')] (boot exampleLog)")
       (auto split: sum.splits prod.splits)
  then obtain s1 where st: "Start True s = Inr ((Some 0, []), s1)"
    and h1: "handles s1 0 = Some exampleHandle"
    and E2: "case exec True mutateWhileReplaying s1 of
               Inl x \<Rightarrow> False
             | Inr s2 \<Rightarrow> Release 0 \<notin> set mutateWhileReplaying"
    by (cases "Start True s") auto
  then obtain s2 where ex: "exec True mutateWhileReplaying s1 = Inr s2"
    and nr: "Release 0 \<notin> set mutateWhileReplaying"
    by (cases "exec True mutateWhileReplaying s1") auto
  have "handles s2 0 = run (events_of 0 mutateWhileReplaying) exampleHandle"
    using snapshot_frozen [OF st ex nr] h1 by auto
  then have "handles s2 0 = run [Worker 0 False, Worker 0 False] exampleHandle"
    by (simp add: mutateWhileReplaying_def)
  then show ?thesis using E e0 st ex by simp
qed

end
